theory Spec2Isabelle
  imports Complex_Main "HOL-Library.Signed_Division"
begin

section \<open>Numbers of the program\<close>

text \<open>
  The program computes with JavaScript numbers. A finite number is modelled as an exact
  real (rounding and overflow are not modelled); the three special values that division
  by zero produces are kept, because the pinch handler divides by a distance that can be
  zero. Zero is the positive zero: every divisor of the program is a distance
  (the result of \<open>Math.hypot\<close>), the literal \<open>0\<close> or a product of equal factors.
\<close>

datatype jsnum = Fin real | PInf | NInf | NaN

definition inf_of_sign :: "real \<Rightarrow> jsnum" where
  "inf_of_sign a = (if a = 0 then NaN else if 0 < a then PInf else NInf)"

fun js_neg :: "jsnum \<Rightarrow> jsnum" where
  "js_neg (Fin a) = Fin (- a)"
| "js_neg PInf = NInf"
| "js_neg NInf = PInf"
| "js_neg NaN = NaN"

fun js_add :: "jsnum \<Rightarrow> jsnum \<Rightarrow> jsnum" where
  "js_add NaN _ = NaN"
| "js_add _ NaN = NaN"
| "js_add (Fin a) (Fin b) = Fin (a + b)"
| "js_add (Fin a) PInf = PInf"
| "js_add (Fin a) NInf = NInf"
| "js_add PInf (Fin b) = PInf"
| "js_add NInf (Fin b) = NInf"
| "js_add PInf PInf = PInf"
| "js_add NInf NInf = NInf"
| "js_add PInf NInf = NaN"
| "js_add NInf PInf = NaN"

definition js_sub :: "jsnum \<Rightarrow> jsnum \<Rightarrow> jsnum" where
  "js_sub a b = js_add a (js_neg b)"

fun js_mul :: "jsnum \<Rightarrow> jsnum \<Rightarrow> jsnum" where
  "js_mul NaN _ = NaN"
| "js_mul _ NaN = NaN"
| "js_mul (Fin a) (Fin b) = Fin (a * b)"
| "js_mul (Fin a) PInf = inf_of_sign a"
| "js_mul (Fin a) NInf = inf_of_sign (- a)"
| "js_mul PInf (Fin b) = inf_of_sign b"
| "js_mul NInf (Fin b) = inf_of_sign (- b)"
| "js_mul PInf PInf = PInf"
| "js_mul NInf NInf = PInf"
| "js_mul PInf NInf = NInf"
| "js_mul NInf PInf = NInf"

fun js_div :: "jsnum \<Rightarrow> jsnum \<Rightarrow> jsnum" where
  "js_div NaN _ = NaN"
| "js_div _ NaN = NaN"
| "js_div (Fin a) (Fin b) = (if b = 0 then inf_of_sign a else Fin (a / b))"
| "js_div (Fin a) PInf = Fin 0"
| "js_div (Fin a) NInf = Fin 0"
| "js_div PInf (Fin b) = (if 0 \<le> b then PInf else NInf)"
| "js_div NInf (Fin b) = (if 0 \<le> b then NInf else PInf)"
| "js_div PInf PInf = NaN"
| "js_div NInf NInf = NaN"
| "js_div PInf NInf = NaN"
| "js_div NInf PInf = NaN"

text \<open>\<open>a < b\<close> of the language: false as soon as one side is \<open>NaN\<close>.\<close>

fun js_lt :: "jsnum \<Rightarrow> jsnum \<Rightarrow> bool" where
  "js_lt NaN _ = False"
| "js_lt _ NaN = False"
| "js_lt (Fin a) (Fin b) = (a < b)"
| "js_lt (Fin a) PInf = True"
| "js_lt (Fin a) NInf = False"
| "js_lt PInf _ = False"
| "js_lt NInf (Fin b) = True"
| "js_lt NInf PInf = True"
| "js_lt NInf NInf = False"

text \<open>\<open>Math.min\<close> and \<open>Math.max\<close> of two arguments: \<open>NaN\<close> as soon as one is.\<close>

fun js_min :: "jsnum \<Rightarrow> jsnum \<Rightarrow> jsnum" where
  "js_min NaN _ = NaN"
| "js_min _ NaN = NaN"
| "js_min a b = (if js_lt b a then b else a)"

fun js_max :: "jsnum \<Rightarrow> jsnum \<Rightarrow> jsnum" where
  "js_max NaN _ = NaN"
| "js_max _ NaN = NaN"
| "js_max a b = (if js_lt a b then b else a)"

text \<open>\<open>Math.hypot\<close> of two finite numbers.\<close>

definition hypot :: "real \<Rightarrow> real \<Rightarrow> real" where
  "hypot a b = sqrt (a * a + b * b)"

section \<open>The canvas\<close>

type_synonym point = "real \<times> real"

text \<open>
  One \<open>ideaNode\<close> group of the layer: its position, the two attributes \<open>drawNode\<close>
  attaches, the \<open>draggable\<close> flag, the visibility of its four children (bubble, outline,
  dot, label, in that order) and the stroke of the outline.
\<close>

record ideaNode =
  g_x :: real
  g_y :: real
  nodeId :: string
  ideaColor :: string
  draggable :: bool
  bubble_visible :: bool
  outline_visible :: bool
  dot_visible :: bool
  label_visible :: bool
  outline_stroke :: string

text \<open>
  \<open>APP\<close>, the stage (position and uniform scale) and the four variables that
  \<open>wireCanvasGestures\<close> closes over.
\<close>

record canvas =
  st_x :: jsnum
  st_y :: jsnum
  st_scale :: jsnum
  nodes :: "ideaNode list"
  selectedNodeId :: "string option"
  lastCenter :: "point option"
  lastDist :: real
  isPinching :: bool
  panStart :: "point option"

definition readableThreshold :: jsnum where
  "readableThreshold = Fin 0.85"

definition nearestColorRadiusWorld :: real where
  "nearestColorRadiusWorld = 220"

definition updateNodeRenderForScale :: "ideaNode \<Rightarrow> jsnum \<Rightarrow> ideaNode" where
  "updateNodeRenderForScale g s =
     (let isDot = js_lt s readableThreshold
      in g\<lparr>bubble_visible := \<not> isDot, outline_visible := \<not> isDot,
           label_visible := \<not> isDot, dot_visible := isDot\<rparr>)"

text \<open>The two render modes of a node, read off the visibility of its children.\<close>

datatype renderMode = DotMode | ReadableMode | Mixed

definition renderMode_of :: "ideaNode \<Rightarrow> renderMode" where
  "renderMode_of g =
     (if dot_visible g \<and> \<not> bubble_visible g \<and> \<not> outline_visible g \<and> \<not> label_visible g
      then DotMode
      else if \<not> dot_visible g \<and> bubble_visible g \<and> outline_visible g \<and> label_visible g
      then ReadableMode
      else Mixed)"

text \<open>
  Modelled from the spec: \<open>screenToWorld\<close> asks the scene-graph library, which is not
  among the sources, for the inverse of the stage's absolute transform; the
  specification gives it as the inverse of translate-then-scale. A point on the screen
  has finite coordinates; a point of the world is whatever the arithmetic gives.
\<close>

definition screenToWorld :: "canvas \<Rightarrow> point \<Rightarrow> jsnum \<times> jsnum" where
  "screenToWorld c p =
     (js_div (js_sub (Fin (fst p)) (st_x c)) (st_scale c),
      js_div (js_sub (Fin (snd p)) (st_y c)) (st_scale c))"

text \<open>
  \<open>findNearestNodeColor\<close>: the body of the \<open>forEach\<close> on the pair \<open>(best, bestD)\<close>, and
  the scan of the groups in the order \<open>find\<close> lists them, from \<open>(null, Infinity)\<close>.
\<close>

definition nearest_step :: "point \<Rightarrow> ideaNode \<Rightarrow> string option \<times> jsnum \<Rightarrow> string option \<times> jsnum" where
  "nearest_step worldPoint g acc =
     (let x = g_x g; y = g_y g;
          d = hypot (x - fst worldPoint) (y - snd worldPoint)
      in if d < nearestColorRadiusWorld \<and> js_lt (Fin d) (snd acc)
         then (Some (ideaColor g), Fin d)
         else acc)"

definition findNearestNodeColor :: "canvas \<Rightarrow> point \<Rightarrow> string option" where
  "findNearestNodeColor c worldPoint = fst (fold (nearest_step worldPoint) (nodes c) (None, PInf))"

text \<open>The distance of a group from the query point, and what the scan holds after the groups \<open>gs\<close>.\<close>

definition dist_to :: "point \<Rightarrow> ideaNode \<Rightarrow> real" where
  "dist_to worldPoint g = hypot (g_x g - fst worldPoint) (g_y g - snd worldPoint)"

definition scanned :: "point \<Rightarrow> ideaNode list \<Rightarrow> string option \<times> jsnum \<Rightarrow> bool" where
  "scanned wp gs acc \<longleftrightarrow>
     (acc = (None, PInf) \<and> (\<forall>g \<in> set gs. \<not> dist_to wp g < 220))
     \<or> (\<exists>i < length gs.
           acc = (Some (ideaColor (gs ! i)), Fin (dist_to wp (gs ! i)))
           \<and> dist_to wp (gs ! i) < 220
           \<and> (\<forall>j < length gs. dist_to wp (gs ! i) \<le> dist_to wp (gs ! j))
           \<and> (\<forall>j < i. dist_to wp (gs ! i) < dist_to wp (gs ! j)))"

definition selectNode :: "string \<Rightarrow> canvas \<Rightarrow> canvas" where
  "selectNode nid c =
     c\<lparr>selectedNodeId := Some nid,
       nodes := map (\<lambda>g. let selected = (nodeId g = nid)
                          in g\<lparr>outline_stroke := (if selected then ''rgba(255,255,255,0.9)''
                                                   else ''rgba(255,255,255,0.0)''),
                               draggable := selected\<rparr>)
                    (nodes c)\<rparr>"

text \<open>
  The handlers that \<open>wireCanvasGestures\<close> registers on the stage, each under the
  event it listens to. First the \<open>touchmove\<close> handler of the pinch: \<open>touches\<close> is
  \<open>None\<close> when the event has no touch list; a touch is its \<open>(clientX, clientY)\<close>.
\<close>

definition clamp_scale :: "jsnum \<Rightarrow> jsnum" where
  "clamp_scale newScale = js_max (Fin 0.25) (js_min (Fin 3.0) newScale)"

definition touchmove_pinch :: "point list option \<Rightarrow> canvas \<Rightarrow> canvas" where
  "touchmove_pinch touches c =
     (case touches of
        None \<Rightarrow> c
      | Some ts \<Rightarrow>
          if length ts = 2 then
            let c1 = c\<lparr>isPinching := True\<rparr>;
                p1 = ts ! 0; p2 = ts ! 1;
                center = ((fst p1 + fst p2) / 2, (snd p1 + snd p2) / 2);
                dist = hypot (fst p1 - fst p2) (snd p1 - snd p2)
            in (case lastCenter c1 of
                  None \<Rightarrow> c1\<lparr>lastCenter := Some center, lastDist := dist\<rparr>
                | Some _ \<Rightarrow>
                    let oldScale = st_scale c1;
                        newScale = clamp_scale (js_mul oldScale (js_div (Fin dist) (Fin (lastDist c1))));
                        pointTo = screenToWorld c1 center;
                        c2 = c1\<lparr>st_scale := newScale\<rparr>;
                        c3 = c2\<lparr>st_x := js_sub (Fin (fst center)) (js_mul (fst pointTo) newScale),
                                st_y := js_sub (Fin (snd center)) (js_mul (snd pointTo) newScale)\<rparr>;
                        c4 = c3\<lparr>nodes := map (\<lambda>g. updateNodeRenderForScale g newScale) (nodes c3)\<rparr>
                    in c4\<lparr>lastCenter := Some center, lastDist := dist\<rparr>)
          else c)"

definition touchend_pinch :: "canvas \<Rightarrow> canvas" where
  "touchend_pinch c = c\<lparr>lastCenter := None, lastDist := 0, isPinching := False\<rparr>"

text \<open>
  The three handlers of the pan. \<open>onBackground\<close> says whether the target of the event
  is the background rectangle, \<open>pos\<close> is the pointer position of the stage (\<open>None\<close>
  when it has none) and \<open>dragging\<close> whether the group of the selected node is being
  dragged.
\<close>

definition down_pan :: "bool \<Rightarrow> point option \<Rightarrow> canvas \<Rightarrow> canvas" where
  "down_pan onBackground pos c =
     (if \<not> onBackground then c
      else if isPinching c then c
      else c\<lparr>panStart := pos\<rparr>)"

definition move_pan :: "point option \<Rightarrow> bool \<Rightarrow> canvas \<Rightarrow> canvas" where
  "move_pan pos dragging c =
     (case panStart c of
        None \<Rightarrow> c
      | Some start \<Rightarrow>
          if isPinching c then c
          else if selectedNodeId c \<noteq> None \<and> dragging then c
          else (case pos of
                  None \<Rightarrow> c
                | Some p \<Rightarrow>
                    let dx = fst p - fst start; dy = snd p - snd start
                    in c\<lparr>st_x := js_add (st_x c) (Fin dx), st_y := js_add (st_y c) (Fin dy),
                         panStart := Some p\<rparr>))"

definition up_pan :: "canvas \<Rightarrow> canvas" where
  "up_pan c = c\<lparr>panStart := None\<rparr>"

text \<open>
  The \<open>wheel\<close> handler: \<open>deltaY\<close> of the event and the pointer position of the stage,
  \<open>None\<close> when the stage has none.
\<close>

definition wheel :: "real \<Rightarrow> point option \<Rightarrow> canvas \<Rightarrow> canvas" where
  "wheel deltaY pointer c =
     (let scaleBy = Fin 1.05;
          oldScale = st_scale c
      in case pointer of
           None \<Rightarrow> c
         | Some p \<Rightarrow>
             let mousePointTo = screenToWorld c p;
                 dir = (if deltaY > 0 then 1 else - 1 :: int);
                 newScale = clamp_scale (if dir > 0 then js_div oldScale scaleBy
                                         else js_mul oldScale scaleBy);
                 c1 = c\<lparr>st_scale := newScale\<rparr>;
                 c2 = c1\<lparr>st_x := js_sub (Fin (fst p)) (js_mul (fst mousePointTo) newScale),
                         st_y := js_sub (Fin (snd p)) (js_mul (snd mousePointTo) newScale)\<rparr>
             in c2\<lparr>nodes := map (\<lambda>g. updateNodeRenderForScale g newScale) (nodes c2)\<rparr>)"

text \<open>
  The events of the stage, each run through its handlers in the order of their
  registration, and a stage as \<open>initStage\<close> leaves it.
\<close>

datatype gesture =
    TouchStart bool "point option"
  | MouseDown bool "point option"
  | TouchMove "point list option" "point option" bool
  | MouseMove "point option" bool
  | TouchEnd
  | MouseUp
  | Wheel real "point option"

fun handle :: "gesture \<Rightarrow> canvas \<Rightarrow> canvas" where
  "handle (TouchStart onBackground pos) c = down_pan onBackground pos c"
| "handle (MouseDown onBackground pos) c = down_pan onBackground pos c"
| "handle (TouchMove touches pos dragging) c = move_pan pos dragging (touchmove_pinch touches c)"
| "handle (MouseMove pos dragging) c = move_pan pos dragging c"
| "handle TouchEnd c = up_pan (touchend_pinch c)"
| "handle MouseUp c = up_pan c"
| "handle (Wheel deltaY pointer) c = wheel deltaY pointer c"

definition run :: "gesture list \<Rightarrow> canvas \<Rightarrow> canvas" where
  "run evs c = fold handle evs c"

definition initial_canvas :: canvas where
  "initial_canvas = \<lparr>st_x = Fin 0, st_y = Fin 0, st_scale = Fin 1, nodes = [],
     selectedNodeId = None, lastCenter = None, lastDist = 0, isPinching = False,
     panStart = None\<rparr>"

text \<open>A scale inside the zoom range.\<close>

definition scale_ok :: "jsnum \<Rightarrow> bool" where
  "scale_ok s = (case s of Fin a \<Rightarrow> 0.25 \<le> a \<and> a \<le> 3 | _ \<Rightarrow> False)"

text \<open>
  The canvas after two fingers went down on the background and a first \<open>touchmove\<close>
  reported both at the same coordinates.
\<close>

definition coincident :: canvas where
  "coincident = run [TouchStart True (Some (4, 5)), TouchStart True (Some (4, 5)),
                     TouchMove (Some [(5, 5), (5, 5)]) (Some (5, 5)) False] initial_canvas"

text \<open>Example layers.\<close>

definition example_node :: "string \<Rightarrow> real \<Rightarrow> real \<Rightarrow> string \<Rightarrow> ideaNode" where
  "example_node i x y col = \<lparr>g_x = x, g_y = y, nodeId = i, ideaColor = col, draggable = False,
     bubble_visible = True, outline_visible = True, dot_visible = False, label_visible = True,
     outline_stroke = ''rgba(255,255,255,0.0)''\<rparr>"

definition three_nodes :: canvas where
  "three_nodes = initial_canvas\<lparr>nodes :=
     [example_node ''A'' 0 0 ''#f4d03f'', example_node ''B'' 30 40 ''#58d68d'',
      example_node ''C'' 0 0 ''#5dade2'']\<rparr>"

section \<open>The store, the clock and the banner\<close>

text \<open>
  The clock is the sequence of values that successive readings of the system time
  return; \<open>reads\<close> counts the readings taken so far. Nothing is assumed of the
  sequence: two readings in one handler may differ.
\<close>

text \<open>
  A backup object. The contents of the \<open>books\<close> and \<open>nodes\<close> tables are of a type
  \<open>'d\<close> that the functions below only copy; \<open>exportedAt\<close> keeps the reading of the
  clock (the program stores its ISO-8601 rendering).
\<close>

record 'd backup =
  version :: nat
  exportedAt :: int
  data_books_nodes :: 'd
  data_settings :: "string \<rightharpoonup> int"

record 'd snapshot =
  snap_id :: nat
  createdAt :: int
  backup :: "'d backup"

text \<open>
  \<open>settings\<close> maps a key to the value of its row; \<open>snapshots\<close> lists the rows of the
  snapshot table by ascending primary key, and \<open>nextId\<close> is the key generator of that
  table (\<open>++id\<close>). \<open>banner_hidden\<close> says whether the banner carries the class
  \<open>hidden\<close>.
\<close>

record 'd app =
  settings :: "string \<rightharpoonup> int"
  snapshots :: "'d snapshot list"
  nextId :: nat
  books_nodes :: 'd
  clock :: "nat \<Rightarrow> int"
  reads :: nat
  banner_hidden :: bool

definition now :: "'d app \<Rightarrow> int \<times> 'd app" where
  "now s = (clock s (reads s), s\<lparr>reads := Suc (reads s)\<rparr>)"

definition dayMs :: int where
  "dayMs = 24 * 60 * 60 * 1000"

definition getSetting :: "'d app \<Rightarrow> string \<Rightarrow> int \<Rightarrow> int" where
  "getSetting s key fallback = (case settings s key of None \<Rightarrow> fallback | Some v \<Rightarrow> v)"

definition setSetting :: "string \<Rightarrow> int \<Rightarrow> 'd app \<Rightarrow> 'd app" where
  "setSetting key v s = s\<lparr>settings := (settings s)(key \<mapsto> v)\<rparr>"

definition buildBackupObject :: "'d app \<Rightarrow> 'd backup \<times> 'd app" where
  "buildBackupObject s =
     (let (t, s1) = now s
      in (\<lparr>version = 1, exportedAt = t, data_books_nodes = books_nodes s1,
           data_settings = settings s1\<rparr>, s1))"

text \<open>
  \<open>orderBy("createdAt").toArray()\<close>: the rows by ascending \<open>createdAt\<close>, rows of equal
  \<open>createdAt\<close> by ascending primary key, which a stable sort of the rows in key order
  gives.
\<close>

definition orderBy_createdAt :: "'d snapshot list \<Rightarrow> 'd snapshot list" where
  "orderBy_createdAt rows = sort_key createdAt rows"

definition bulkDelete :: "nat list \<Rightarrow> 'd snapshot list \<Rightarrow> 'd snapshot list" where
  "bulkDelete ids rows = filter (\<lambda>r. snap_id r \<notin> set ids) rows"

definition createInternalSnapshot :: "'d app \<Rightarrow> 'd app" where
  "createInternalSnapshot s =
     (let (b, s1) = buildBackupObject s;
          (t, s2) = now s1;
          s3 = s2\<lparr>snapshots := snapshots s2 @ [\<lparr>snap_id = nextId s2, createdAt = t, backup = b\<rparr>],
                  nextId := Suc (nextId s2)\<rparr>;
          all = orderBy_createdAt (snapshots s3)
      in if length all > 10
         then let toDelete = map snap_id (take (length all - 10) all)
              in s3\<lparr>snapshots := bulkDelete toDelete (snapshots s3)\<rparr>
         else s3)"

definition maybeShowBackupNudge :: "'d app \<Rightarrow> 'd app" where
  "maybeShowBackupNudge s =
     (let lastChangedAt = getSetting s ''lastChangedAt'' 0;
          lastExternal = getSetting s ''lastExternalBackupAt'' 0;
          lastDismiss = getSetting s ''lastNudgeDismissAt'' 0;
          changedSinceExternal = (lastChangedAt > lastExternal);
          (t1, s1) = now s;
          beenADay = (t1 - lastExternal \<ge> dayMs);
          (t2, s2) = now s1;
          dismissedToday = (t2 - lastDismiss < dayMs)
      in if changedSinceExternal \<and> beenADay \<and> \<not> dismissedToday
         then s2\<lparr>banner_hidden := False\<rparr>
         else s2\<lparr>banner_hidden := True\<rparr>)"

text \<open>
  \<open>count % 25 === 0\<close>: the remainder of the language takes the sign of the dividend,
  as \<open>smod\<close> does.
\<close>

definition markChanged :: "'d app \<Rightarrow> 'd app" where
  "markChanged s =
     (let (t, s1) = now s;
          s2 = setSetting ''lastChangedAt'' t s1;
          count = getSetting s2 ''changeCount'' 0 + 1;
          s3 = setSetting ''changeCount'' count s2;
          s4 = (if count smod 25 = 0 then createInternalSnapshot s3 else s3)
      in maybeShowBackupNudge s4)"

text \<open>
  The snapshot table is keyed by \<open>id\<close>: the keys of its rows are distinct and were all
  handed out by the key generator.
\<close>

definition table_ok :: "'d app \<Rightarrow> bool" where
  "table_ok s \<longleftrightarrow> distinct (map snap_id (snapshots s)) \<and> (\<forall>r \<in> set (snapshots s). snap_id r < nextId s)"

text \<open>
  The row that \<open>createInternalSnapshot\<close> adds in state \<open>s\<close>, and the rows that its
  retention step leaves of a table.
\<close>

definition new_row :: "'d app \<Rightarrow> 'd snapshot" where
  "new_row s = \<lparr>snap_id = nextId s, createdAt = clock s (Suc (reads s)),
       backup = \<lparr>version = 1, exportedAt = clock s (reads s),
                 data_books_nodes = books_nodes s, data_settings = settings s\<rparr>\<rparr>"

definition retained :: "'d snapshot list \<Rightarrow> 'd snapshot list" where
  "retained rows =
     (if length rows > 10
      then bulkDelete (map snap_id (take (length rows - 10) (orderBy_createdAt rows))) rows
      else rows)"

text \<open>The state of the snapshot table after creations under a clock that never runs backwards.\<close>

definition chronological :: "'d app \<Rightarrow> bool" where
  "chronological s \<longleftrightarrow> sorted (map createdAt (snapshots s))
      \<and> (\<forall>r \<in> set (snapshots s). \<exists>j < reads s. createdAt r = clock s j)"

text \<open>The state in which \<open>markChanged\<close> decides whether to take a snapshot.\<close>

definition counted :: "'d app \<Rightarrow> 'd app" where
  "counted s = setSetting ''changeCount'' (getSetting s ''changeCount'' 0 + 1)
                 (setSetting ''lastChangedAt'' (clock s (reads s)) (s\<lparr>reads := Suc (reads s)\<rparr>))"

subsection \<open>Example stores\<close>

text \<open>
  A store on which nothing was ever written, and one whose snapshot table is full, with
  the row of key 2 the oldest by creation time.
\<close>

definition fresh_store :: "unit app" where
  "fresh_store = \<lparr>settings = Map.empty, snapshots = [], nextId = 1, books_nodes = (),
     clock = (\<lambda>k. 1700000000000 + int k), reads = 0, banner_hidden = False\<rparr>"

definition row :: "nat \<Rightarrow> int \<Rightarrow> unit snapshot" where
  "row i t = \<lparr>snap_id = i, createdAt = t,
     backup = \<lparr>version = 1, exportedAt = t, data_books_nodes = (), data_settings = Map.empty\<rparr>\<rparr>"

definition full_store :: "unit app" where
  "full_store = fresh_store\<lparr>snapshots :=
       [row 1 500, row 2 100, row 3 300, row 4 400, row 5 500,
        row 6 600, row 7 700, row 8 800, row 9 900, row 10 1000],
     nextId := 11\<rparr>"

definition due_store :: "unit app" where
  "due_store = full_store\<lparr>settings := [''changeCount'' \<mapsto> 24]\<rparr>"

text \<open>
  The scenario of the specification: the last change at \<open>T\<close>, the last external backup
  25 hours before, the last dismissal at \<open>d\<close>, and a clock that reads \<open>T\<close>.
\<close>

definition scenario :: "int \<Rightarrow> unit app" where
  "scenario d = fresh_store\<lparr>settings :=
        [''lastChangedAt'' \<mapsto> 1700000000000,
         ''lastExternalBackupAt'' \<mapsto> 1700000000000 - 25 * 3600000,
         ''lastNudgeDismissAt'' \<mapsto> d],
      clock := (\<lambda>k. 1700000000000)\<rparr>"

section \<open>Level of detail\<close>

text \<open>
  C6. For every scale \<open>s\<close>, the special values included, a node is in dot mode after
  \<open>updateNodeRenderForScale\<close> exactly when \<open>s < 0.85\<close> and in readable mode
  otherwise, whatever the node looked like before: the four visibility flags are
  functions of \<open>s\<close> alone, and nothing else of the node changes.
\<close>

theorem renderMode_threshold:
  "renderMode_of (updateNodeRenderForScale g s) =
     (if js_lt s (Fin 0.85) then DotMode else ReadableMode)
   \<and> dot_visible (updateNodeRenderForScale g s) = js_lt s (Fin 0.85)
   \<and> bubble_visible (updateNodeRenderForScale g s) = (\<not> js_lt s (Fin 0.85))
   \<and> outline_visible (updateNodeRenderForScale g s) = (\<not> js_lt s (Fin 0.85))
   \<and> label_visible (updateNodeRenderForScale g s) = (\<not> js_lt s (Fin 0.85))
   \<and> renderMode_of (updateNodeRenderForScale g s) = renderMode_of (updateNodeRenderForScale g' s)
   \<and> (updateNodeRenderForScale g s)
        \<lparr>bubble_visible := bubble_visible g, outline_visible := outline_visible g,
         label_visible := label_visible g, dot_visible := dot_visible g\<rparr> = g"
  by (simp add: updateNodeRenderForScale_def renderMode_of_def readableThreshold_def Let_def)

section \<open>Zoom\<close>

lemma hypot_same: "hypot 0 0 = 0"
  by (simp add: hypot_def)

lemma hypot_6_8: "hypot (- 6) (- 8) = 10"
  by (simp add: hypot_def real_sqrt_unique)

lemma move_pan_pinching: "isPinching c \<Longrightarrow> move_pan pos dragging c = c"
  by (simp add: move_pan_def split: option.splits)

lemma handle_two_touches:
  "handle (TouchMove (Some [p1, p2]) pos dragging) c = touchmove_pinch (Some [p1, p2]) c"
proof -
  have "isPinching (touchmove_pinch (Some [p1, p2]) c)"
    by (simp add: touchmove_pinch_def Let_def split: option.splits)
  then show ?thesis by (simp add: move_pan_pinching)
qed

lemma coincident_eq:
  "coincident = initial_canvas\<lparr>isPinching := True, lastCenter := Some (5, 5), lastDist := 0,
     panStart := Some (4, 5)\<rparr>"
  by (simp add: coincident_def run_def down_pan_def move_pan_def touchmove_pinch_def
      initial_canvas_def Let_def hypot_same)

lemma clamp_scale_ok: "s \<noteq> NaN \<Longrightarrow> scale_ok (clamp_scale s)"
  by (cases s) (simp_all add: clamp_scale_def scale_ok_def)

lemma scale_wheel:
  "st_scale (wheel deltaY (Some p) c) =
     clamp_scale (if deltaY > 0 then js_div (st_scale c) (Fin 1.05) else js_mul (st_scale c) (Fin 1.05))"
  by (simp add: wheel_def Let_def)

lemma wheel_scale_ok:
  assumes "st_scale c \<noteq> NaN"
  shows "scale_ok (st_scale (wheel deltaY (Some p) c))"
proof -
  have "js_div (st_scale c) (Fin 1.05) \<noteq> NaN" "js_mul (st_scale c) (Fin 1.05) \<noteq> NaN"
    using assms by (cases "st_scale c"; simp add: inf_of_sign_def)+
  then show ?thesis by (simp add: scale_wheel clamp_scale_ok)
qed

lemma scale_touchmove_pinch:
  assumes "lastCenter c = Some q"
  shows "st_scale (touchmove_pinch (Some [p1, p2]) c) =
     clamp_scale (js_mul (st_scale c)
        (js_div (Fin (hypot (fst p1 - fst p2) (snd p1 - snd p2))) (Fin (lastDist c))))"
  using assms by (simp add: touchmove_pinch_def Let_def)

lemma touchmove_scale_ok:
  assumes "scale_ok (st_scale c)" and "lastCenter c = Some q"
    and "p1 \<noteq> p2 \<or> lastDist c \<noteq> 0"
  shows "scale_ok (st_scale (handle (TouchMove (Some [p1, p2]) pos dragging) c))"
proof -
  obtain a where a: "st_scale c = Fin a" "0 < a"
    using assms(1) by (cases "st_scale c") (simp_all add: scale_ok_def)
  let ?d = "hypot (fst p1 - fst p2) (snd p1 - snd p2)"
  have d: "lastDist c = 0 \<Longrightarrow> 0 < ?d"
    using assms(3) by (cases p1; cases p2) (auto simp: hypot_def intro: sum_squares_gt_zero_iff [THEN iffD2] real_sqrt_gt_zero)
  have "js_mul (st_scale c) (js_div (Fin ?d) (Fin (lastDist c))) \<noteq> NaN"
    using a d by (cases "lastDist c = 0") (simp_all add: inf_of_sign_def)
  then show ?thesis
    unfolding handle_two_touches scale_touchmove_pinch [OF assms(2)] by (rule clamp_scale_ok)
qed

lemma scale_other_events:
  "st_scale (down_pan onBackground pos c) = st_scale c"
  "st_scale (move_pan pos dragging c) = st_scale c"
  "st_scale (up_pan c) = st_scale c"
  "st_scale (touchend_pinch c) = st_scale c"
  "st_scale (wheel deltaY None c) = st_scale c"
  "lastCenter c = None \<Longrightarrow> st_scale (touchmove_pinch touches c) = st_scale c"
  "touches = None \<or> length (the touches) \<noteq> 2 \<Longrightarrow> st_scale (touchmove_pinch touches c) = st_scale c"
  by (auto simp: down_pan_def move_pan_def up_pan_def touchend_pinch_def wheel_def
      touchmove_pinch_def Let_def split: option.splits)

lemma anchor_kept:
  assumes "st_x c = Fin x" and "st_y c = Fin y" and "st_scale c = Fin a" and "a \<noteq> 0"
    and "scale_ok (st_scale c')"
    and "st_x c' = js_sub (Fin (fst p)) (js_mul (fst (screenToWorld c p)) (st_scale c'))"
    and "st_y c' = js_sub (Fin (snd p)) (js_mul (snd (screenToWorld c p)) (st_scale c'))"
  shows "screenToWorld c' p = screenToWorld c p"
proof -
  obtain b where b: "st_scale c' = Fin b" "b \<noteq> 0"
    using assms(5) by (cases "st_scale c'") (auto simp: scale_ok_def)
  show ?thesis
    using assms(1-4,6,7) b by (simp add: screenToWorld_def js_sub_def)
qed

lemma wheel_anchor:
  assumes "st_x c = Fin x" and "st_y c = Fin y" and "scale_ok (st_scale c)"
  shows "screenToWorld (handle (Wheel deltaY (Some p)) c) p = screenToWorld c p"
proof -
  obtain a where a: "st_scale c = Fin a" "a \<noteq> 0"
    using assms(3) by (cases "st_scale c") (auto simp: scale_ok_def)
  have ok: "scale_ok (st_scale (wheel deltaY (Some p) c))"
    using a by (intro wheel_scale_ok) simp
  have "screenToWorld (wheel deltaY (Some p) c) p = screenToWorld c p"
    using assms(1,2) a ok by (rule anchor_kept) (simp_all add: wheel_def Let_def)
  then show ?thesis by simp
qed

lemma touchmove_anchor:
  assumes "st_x c = Fin x" and "st_y c = Fin y" and "scale_ok (st_scale c)"
    and "lastCenter c = Some q" and "p1 \<noteq> p2 \<or> lastDist c \<noteq> 0"
  shows "screenToWorld (handle (TouchMove (Some [p1, p2]) pos dragging) c)
            ((fst p1 + fst p2) / 2, (snd p1 + snd p2) / 2)
         = screenToWorld c ((fst p1 + fst p2) / 2, (snd p1 + snd p2) / 2)"
proof -
  obtain a where a: "st_scale c = Fin a" "a \<noteq> 0"
    using assms(3) by (cases "st_scale c") (auto simp: scale_ok_def)
  have ok: "scale_ok (st_scale (touchmove_pinch (Some [p1, p2]) c))"
    using touchmove_scale_ok [OF assms(3,4,5)] by (simp only: handle_two_touches)
  have "screenToWorld (touchmove_pinch (Some [p1, p2]) c) ((fst p1 + fst p2) / 2, (snd p1 + snd p2) / 2)
         = screenToWorld c ((fst p1 + fst p2) / 2, (snd p1 + snd p2) / 2)"
    using assms(1,2) a ok
    by (rule anchor_kept) (simp_all add: touchmove_pinch_def Let_def screenToWorld_def assms(4))
  then show ?thesis by (simp only: handle_two_touches)
qed

lemma first_sample_kept:
  "lastCenter c = None \<longrightarrow> lastDist c = 0 \<Longrightarrow>
     lastCenter (handle ev c) = None \<longrightarrow> lastDist (handle ev c) = 0"
  by (cases ev)
     (auto simp: touchmove_pinch_def touchend_pinch_def wheel_def down_pan_def move_pan_def
        up_pan_def Let_def split: option.splits)

lemma first_sample_run:
  "lastCenter c = None \<longrightarrow> lastDist c = 0 \<Longrightarrow>
     lastCenter (run evs c) = None \<longrightarrow> lastDist (run evs c) = 0"
  unfolding run_def
proof (induction evs arbitrary: c)
  case Nil
  then show ?case by simp
next
  case (Cons ev evs)
  show ?case
    using Cons.IH [OF first_sample_kept [OF Cons.prems, of ev]] by simp
qed

text \<open>
  The guard that the handler has. A \<open>touchmove\<close> with two touches that arrives while no
  centre of a previous sample is recorded applies no zoom and no pan, and only records
  the centre and the distance of the touches; in every state that the events reach from
  the initial stage, no recorded centre means a recorded distance of 0. A recorded
  centre with a recorded distance of 0 is not guarded.
\<close>

lemma first_sample_no_zoom:
  assumes "lastCenter c = None"
  shows "st_scale (handle (TouchMove (Some [p1, p2]) pos dragging) c) = st_scale c
    \<and> st_x (handle (TouchMove (Some [p1, p2]) pos dragging) c) = st_x c
    \<and> st_y (handle (TouchMove (Some [p1, p2]) pos dragging) c) = st_y c
    \<and> nodes (handle (TouchMove (Some [p1, p2]) pos dragging) c) = nodes c
    \<and> lastCenter (handle (TouchMove (Some [p1, p2]) pos dragging) c)
        = Some ((fst p1 + fst p2) / 2, (snd p1 + snd p2) / 2)
    \<and> lastDist (handle (TouchMove (Some [p1, p2]) pos dragging) c)
        = hypot (fst p1 - fst p2) (snd p1 - snd p2)
    \<and> (lastCenter (run evs initial_canvas) = None \<longrightarrow> lastDist (run evs initial_canvas) = 0)"
proof -
  have "lastCenter (run evs initial_canvas) = None \<longrightarrow> lastDist (run evs initial_canvas) = 0"
    by (rule first_sample_run) (simp add: initial_canvas_def)
  then show ?thesis
    unfolding handle_two_touches
    using assms by (simp add: touchmove_pinch_def Let_def)
qed

text \<open>
  C1 at its failing input. After a first sample with both touches at \<open>(5, 5)\<close> a centre
  is recorded and the recorded distance is 0; the next \<open>touchmove\<close>, with touches at
  \<open>(0, 0)\<close> and \<open>(6, 8)\<close>, divides by that distance instead of applying no update, and
  the stage goes from scale 1 at \<open>(0, 0)\<close> to scale 3 at \<open>(-6, -8)\<close>.
\<close>

theorem pinch_zero_distance_zooms:
  "lastCenter coincident = Some (5, 5) \<and> lastDist coincident = 0
   \<and> st_scale coincident = Fin 1 \<and> st_x coincident = Fin 0 \<and> st_y coincident = Fin 0
   \<and> st_scale (handle (TouchMove (Some [(0, 0), (6, 8)]) (Some (0, 0)) False) coincident) = Fin 3
   \<and> st_x (handle (TouchMove (Some [(0, 0), (6, 8)]) (Some (0, 0)) False) coincident) = Fin (- 6)
   \<and> st_y (handle (TouchMove (Some [(0, 0), (6, 8)]) (Some (0, 0)) False) coincident) = Fin (- 8)"
  unfolding handle_two_touches
  by (simp add: coincident_eq touchmove_pinch_def initial_canvas_def Let_def hypot_6_8
      clamp_scale_def inf_of_sign_def screenToWorld_def js_sub_def)

text \<open>
  C5 at its failing input. Two successive \<open>touchmove\<close> events whose touches are reported
  at the same coordinates, \<open>(5, 5)\<close> and then \<open>(6, 6)\<close>: the second computes \<open>0 / 0\<close>,
  which neither \<open>Math.min\<close> nor \<open>Math.max\<close> clamps, and the scale of the stage, 1
  before, is \<open>NaN\<close> after.
\<close>

theorem pinch_scale_escapes:
  "scale_ok (st_scale initial_canvas)
   \<and> scale_ok (st_scale coincident)
   \<and> st_scale (handle (TouchMove (Some [(6, 6), (6, 6)]) (Some (6, 6)) False) coincident) = NaN
   \<and> \<not> scale_ok (st_scale (handle (TouchMove (Some [(6, 6), (6, 6)]) (Some (6, 6)) False) coincident))"
  unfolding handle_two_touches
  by (simp add: coincident_eq touchmove_pinch_def initial_canvas_def Let_def hypot_same
      clamp_scale_def inf_of_sign_def scale_ok_def)

text \<open>
  C7 at its failing input, the same two events. The world point under the focal point
  \<open>(6, 6)\<close> is \<open>(6, 6)\<close> before the second event; after it the transform of the stage is
  \<open>NaN\<close> and so is the world point under \<open>(6, 6)\<close>.
\<close>

theorem pinch_anchor_lost:
  "screenToWorld coincident (6, 6) = (Fin 6, Fin 6)
   \<and> screenToWorld (handle (TouchMove (Some [(6, 6), (6, 6)]) (Some (6, 6)) False) coincident) (6, 6)
       = (NaN, NaN)"
  unfolding handle_two_touches
  by (simp add: coincident_eq touchmove_pinch_def initial_canvas_def Let_def hypot_same
      clamp_scale_def inf_of_sign_def screenToWorld_def js_sub_def)

section \<open>Colour of the nearest node\<close>

lemma hypot_nonneg: "0 \<le> hypot a b"
  by (simp add: hypot_def)

lemma hypot_zero_iff: "hypot a b = 0 \<longleftrightarrow> a = 0 \<and> b = 0"
  by (simp add: hypot_def)

lemma nearest_step_dist:
  "nearest_step wp g acc =
     (if dist_to wp g < 220 \<and> js_lt (Fin (dist_to wp g)) (snd acc)
      then (Some (ideaColor g), Fin (dist_to wp g)) else acc)"
  by (simp add: nearest_step_def dist_to_def nearestColorRadiusWorld_def Let_def)

lemma scanned_step:
  assumes "scanned wp gs acc"
  shows "scanned wp (gs @ [g]) (nearest_step wp g acc)"
  using assms unfolding scanned_def
proof (elim disjE conjE exE)
  assume acc: "acc = (None, PInf)" and far: "\<forall>g \<in> set gs. \<not> dist_to wp g < 220"
  show "(nearest_step wp g acc = (None, PInf) \<and> (\<forall>g \<in> set (gs @ [g]). \<not> dist_to wp g < 220))
     \<or> (\<exists>i < length (gs @ [g]).
           nearest_step wp g acc = (Some (ideaColor ((gs @ [g]) ! i)), Fin (dist_to wp ((gs @ [g]) ! i)))
           \<and> dist_to wp ((gs @ [g]) ! i) < 220
           \<and> (\<forall>j < length (gs @ [g]). dist_to wp ((gs @ [g]) ! i) \<le> dist_to wp ((gs @ [g]) ! j))
           \<and> (\<forall>j < i. dist_to wp ((gs @ [g]) ! i) < dist_to wp ((gs @ [g]) ! j)))"
  proof (cases "dist_to wp g < 220")
    case True
    have other: "dist_to wp g < dist_to wp (gs ! j)" if "j < length gs" for j
      using far that True by (metis nth_mem not_less order_less_le_trans)
    have "nearest_step wp g acc = (Some (ideaColor g), Fin (dist_to wp g))"
      using True acc by (simp add: nearest_step_dist)
    moreover have "\<forall>j < length (gs @ [g]). dist_to wp g \<le> dist_to wp ((gs @ [g]) ! j)"
      using other by (auto simp: nth_append less_Suc_eq intro: less_imp_le)
    moreover have "\<forall>j < length gs. dist_to wp g < dist_to wp ((gs @ [g]) ! j)"
      using other by (simp add: nth_append)
    ultimately show ?thesis
      using True by (intro disjI2 exI [of _ "length gs"]) simp
  next
    case False
    then show ?thesis using acc far by (simp add: nearest_step_dist)
  qed
next
  fix i
  assume i: "i < length gs"
    and acc: "acc = (Some (ideaColor (gs ! i)), Fin (dist_to wp (gs ! i)))"
    and near: "dist_to wp (gs ! i) < 220"
    and least: "\<forall>j < length gs. dist_to wp (gs ! i) \<le> dist_to wp (gs ! j)"
    and first: "\<forall>j < i. dist_to wp (gs ! i) < dist_to wp (gs ! j)"
  show "(nearest_step wp g acc = (None, PInf) \<and> (\<forall>g \<in> set (gs @ [g]). \<not> dist_to wp g < 220))
     \<or> (\<exists>i < length (gs @ [g]).
           nearest_step wp g acc = (Some (ideaColor ((gs @ [g]) ! i)), Fin (dist_to wp ((gs @ [g]) ! i)))
           \<and> dist_to wp ((gs @ [g]) ! i) < 220
           \<and> (\<forall>j < length (gs @ [g]). dist_to wp ((gs @ [g]) ! i) \<le> dist_to wp ((gs @ [g]) ! j))
           \<and> (\<forall>j < i. dist_to wp ((gs @ [g]) ! i) < dist_to wp ((gs @ [g]) ! j)))"
  proof (cases "dist_to wp g < 220 \<and> dist_to wp g < dist_to wp (gs ! i)")
    case True
    have other: "dist_to wp g < dist_to wp (gs ! j)" if "j < length gs" for j
      using least that True by (metis order_less_le_trans)
    have "nearest_step wp g acc = (Some (ideaColor g), Fin (dist_to wp g))"
      using True acc by (simp add: nearest_step_dist)
    moreover have "\<forall>j < length (gs @ [g]). dist_to wp g \<le> dist_to wp ((gs @ [g]) ! j)"
      using other by (auto simp: nth_append less_Suc_eq intro: less_imp_le)
    moreover have "\<forall>j < length gs. dist_to wp g < dist_to wp ((gs @ [g]) ! j)"
      using other by (simp add: nth_append)
    ultimately show ?thesis
      using True by (intro disjI2 exI [of _ "length gs"]) simp
  next
    case False
    then have le: "dist_to wp (gs ! i) \<le> dist_to wp g"
      using near by linarith
    have "nearest_step wp g acc = acc"
      using False acc by (auto simp: nearest_step_dist)
    moreover have "\<forall>j < length (gs @ [g]). dist_to wp (gs ! i) \<le> dist_to wp ((gs @ [g]) ! j)"
      using least le by (auto simp: nth_append less_Suc_eq)
    moreover have "\<forall>j < i. dist_to wp (gs ! i) < dist_to wp ((gs @ [g]) ! j)"
      using first i by (simp add: nth_append)
    ultimately show ?thesis
      using i acc near by (intro disjI2 exI [of _ i]) (simp add: nth_append)
  qed
qed

lemma scanned_fold: "scanned wp gs (fold (nearest_step wp) gs (None, PInf))"
proof (induction gs rule: rev_induct)
  case Nil
  then show ?case by (simp add: scanned_def)
next
  case (snoc g gs)
  then show ?case using scanned_step [of wp gs _ g] by simp
qed


text \<open>
  C8. \<open>findNearestNodeColor\<close> returns nothing exactly when no group is less than 220
  world units from the query point. Otherwise it returns the colour of a group that is
  less than 220 units away, at most as far as every group of the layer, and strictly
  nearer than every group scanned before it: the first of the nearest. So the first
  group that lies on the query point itself gives the result.
\<close>

theorem nearest_color:
  "(findNearestNodeColor c wp = None \<longleftrightarrow> (\<forall>g \<in> set (nodes c). \<not> dist_to wp g < nearestColorRadiusWorld))
   \<and> ((\<exists>g \<in> set (nodes c). dist_to wp g < nearestColorRadiusWorld) \<longrightarrow>
        (\<exists>i < length (nodes c).
           findNearestNodeColor c wp = Some (ideaColor (nodes c ! i))
           \<and> dist_to wp (nodes c ! i) < nearestColorRadiusWorld
           \<and> (\<forall>j < length (nodes c). dist_to wp (nodes c ! i) \<le> dist_to wp (nodes c ! j))
           \<and> (\<forall>j < i. dist_to wp (nodes c ! i) < dist_to wp (nodes c ! j))))
   \<and> (\<forall>i < length (nodes c).
         g_x (nodes c ! i) = fst wp \<and> g_y (nodes c ! i) = snd wp
         \<and> (\<forall>j < i. \<not> (g_x (nodes c ! j) = fst wp \<and> g_y (nodes c ! j) = snd wp))
         \<longrightarrow> findNearestNodeColor c wp = Some (ideaColor (nodes c ! i)))"
proof -
  let ?gs = "nodes c"
  let ?acc = "fold (nearest_step wp) ?gs (None, PInf)"
  note inv = scanned_fold [of wp ?gs, unfolded scanned_def]
  have res: "findNearestNodeColor c wp = fst ?acc"
    by (simp add: findNearestNodeColor_def)
  have none: "findNearestNodeColor c wp = None \<longleftrightarrow> (\<forall>g \<in> set ?gs. \<not> dist_to wp g < 220)"
  proof -
    from inv consider
      (empty) "?acc = (None, PInf)" "\<forall>g \<in> set ?gs. \<not> dist_to wp g < 220"
      | (found) i where "i < length ?gs" "fst ?acc = Some (ideaColor (?gs ! i))"
          "dist_to wp (?gs ! i) < 220"
      by force
    then show ?thesis
    proof cases
      case empty
      then show ?thesis by (simp add: res)
    next
      case found
      have "?gs ! i \<in> set ?gs" using found(1) by simp
      then show ?thesis using found(2,3) unfolding res by auto
    qed
  qed
  have some: "\<exists>i < length ?gs.
           findNearestNodeColor c wp = Some (ideaColor (?gs ! i))
           \<and> dist_to wp (?gs ! i) < 220
           \<and> (\<forall>j < length ?gs. dist_to wp (?gs ! i) \<le> dist_to wp (?gs ! j))
           \<and> (\<forall>j < i. dist_to wp (?gs ! i) < dist_to wp (?gs ! j))"
    if "\<exists>g \<in> set ?gs. dist_to wp g < 220"
    using inv that unfolding res by auto
  have at: "findNearestNodeColor c wp = Some (ideaColor (?gs ! i))"
    if i: "i < length ?gs" and here: "g_x (?gs ! i) = fst wp \<and> g_y (?gs ! i) = snd wp"
      and first: "\<forall>j < i. \<not> (g_x (?gs ! j) = fst wp \<and> g_y (?gs ! j) = snd wp)" for i
  proof -
    have zero: "dist_to wp (?gs ! i) = 0"
      using here by (simp add: dist_to_def hypot_zero_iff)
    then have "\<exists>g \<in> set ?gs. dist_to wp g < 220"
      using i by (intro bexI [of _ "?gs ! i"]) simp_all
    then obtain k where k: "k < length ?gs"
      and r: "findNearestNodeColor c wp = Some (ideaColor (?gs ! k))"
      and least: "\<forall>j < length ?gs. dist_to wp (?gs ! k) \<le> dist_to wp (?gs ! j)"
      and strict: "\<forall>j < k. dist_to wp (?gs ! k) < dist_to wp (?gs ! j)"
      using some by blast
    have "dist_to wp (?gs ! k) \<le> 0"
      using least i zero by metis
    then have kz: "dist_to wp (?gs ! k) = 0"
      using hypot_nonneg [of "g_x (?gs ! k) - fst wp" "g_y (?gs ! k) - snd wp"]
      by (simp add: dist_to_def)
    then have "g_x (?gs ! k) = fst wp \<and> g_y (?gs ! k) = snd wp"
      by (simp add: dist_to_def hypot_zero_iff)
    then have "\<not> k < i" using first by blast
    moreover have "\<not> i < k" using strict zero kz by force
    ultimately have "k = i" by simp
    then show ?thesis using r by simp
  qed
  show ?thesis
    unfolding nearestColorRadiusWorld_def using none some at by blast
qed

theorem nearest_color_witness:
  "dist_to (0, 0) (nodes three_nodes ! 0) < nearestColorRadiusWorld
   \<and> findNearestNodeColor three_nodes (0, 0) = Some ''#f4d03f''
   \<and> g_x (nodes three_nodes ! 1) = 30 \<and> g_y (nodes three_nodes ! 1) = 40
   \<and> findNearestNodeColor three_nodes (30, 40) = Some ''#58d68d''
   \<and> findNearestNodeColor three_nodes (1000, 1000) = None"
proof -
  have n: "nodes three_nodes = [example_node ''A'' 0 0 ''#f4d03f'',
      example_node ''B'' 30 40 ''#58d68d'', example_node ''C'' 0 0 ''#5dade2'']"
    by (simp add: three_nodes_def)
  have len: "length (nodes three_nodes) = 3" by (simp add: n)
  note T = nearest_color [of three_nodes]
  note first_on_point = nearest_color [of three_nodes, THEN conjunct2, THEN conjunct2, rule_format]
  have a: "findNearestNodeColor three_nodes (0, 0) = Some (ideaColor (nodes three_nodes ! 0))"
    using first_on_point [of 0 "(0, 0)"] by (simp add: n example_node_def)
  have b: "findNearestNodeColor three_nodes (30, 40) = Some (ideaColor (nodes three_nodes ! 1))"
    using first_on_point [of 1 "(30, 40)"] by (simp add: n example_node_def)
  have far: "\<not> dist_to (1000, 1000) g < 220" if "g \<in> set (nodes three_nodes)" for g
  proof -
    have "220 \<le> \<bar>g_x g - 1000\<bar>"
      using that by (auto simp: n example_node_def)
    also have "\<dots> \<le> dist_to (1000, 1000) g"
      by (simp add: dist_to_def hypot_def power2_eq_square [symmetric])
    finally show ?thesis by simp
  qed
  have c: "findNearestNodeColor three_nodes (1000, 1000) = None"
    using T [of "(1000, 1000)"] far by (simp add: nearestColorRadiusWorld_def)
  have d: "dist_to (0, 0) (nodes three_nodes ! 0) < nearestColorRadiusWorld"
    by (simp add: n example_node_def dist_to_def hypot_def nearestColorRadiusWorld_def)
  show ?thesis
    using a b c d by (simp add: n example_node_def)
qed

section \<open>Selection\<close>

lemma at_most_one_key:
  "distinct (map f xs) \<Longrightarrow> length (filter (\<lambda>x. f x = b) xs) \<le> 1"
  by (induction xs) (auto simp: filter_empty_conv intro: rev_image_eqI)

lemma exactly_one_key:
  "distinct (map f xs) \<Longrightarrow> b \<in> f ` set xs \<Longrightarrow> length (filter (\<lambda>x. f x = b) xs) = 1"
  by (induction xs) (auto simp: filter_empty_conv intro: rev_image_eqI)

lemma nodeIds_selectNode: "map nodeId (nodes (selectNode b c)) = map nodeId (nodes c)"
  by (simp add: selectNode_def Let_def comp_def)

lemma draggable_selectNode:
  "filter draggable (nodes (selectNode b c))
     = filter (\<lambda>g. nodeId g = b) (nodes (selectNode b c))"
  by (simp add: selectNode_def Let_def filter_map comp_def)

lemma stroke_selectNode:
  "filter (\<lambda>g. outline_stroke g = ''rgba(255,255,255,0.9)'') (nodes (selectNode b c))
     = filter (\<lambda>g. nodeId g = b) (nodes (selectNode b c))"
  by (simp add: selectNode_def Let_def filter_map comp_def)

text \<open>
  C9. After \<open>selectNode b\<close>, whatever was selected before, \<open>b\<close> is the selected id; a
  group is draggable and has the visible outline stroke if its node id is \<open>b\<close>, and is
  not draggable and has the transparent stroke if not. With node ids distinct on the
  layer, at most one group is selected, and exactly one when \<open>b\<close> is on the layer; a
  node \<open>a\<close> selected before is deselected.
\<close>

theorem selection_exclusive:
  "selectedNodeId (selectNode b c) = Some b
   \<and> map nodeId (nodes (selectNode b c)) = map nodeId (nodes c)
   \<and> (\<forall>g \<in> set (nodes (selectNode b c)).
         if nodeId g = b then outline_stroke g = ''rgba(255,255,255,0.9)'' \<and> draggable g
         else outline_stroke g = ''rgba(255,255,255,0.0)'' \<and> \<not> draggable g)
   \<and> (distinct (map nodeId (nodes c)) \<longrightarrow>
         length (filter draggable (nodes (selectNode b c))) \<le> 1
         \<and> length (filter (\<lambda>g. outline_stroke g = ''rgba(255,255,255,0.9)'') (nodes (selectNode b c))) \<le> 1
         \<and> (b \<in> set (map nodeId (nodes c)) \<longrightarrow>
              length (filter draggable (nodes (selectNode b c))) = 1
              \<and> length (filter (\<lambda>g. outline_stroke g = ''rgba(255,255,255,0.9)'') (nodes (selectNode b c))) = 1))
   \<and> (a \<noteq> b \<longrightarrow>
         (\<forall>g \<in> set (nodes (selectNode b (selectNode a c))).
            nodeId g = a \<longrightarrow> outline_stroke g = ''rgba(255,255,255,0.0)'' \<and> \<not> draggable g))"
proof -
  have sel: "selectedNodeId (selectNode b c) = Some b"
    by (simp add: selectNode_def)
  have each: "\<forall>g \<in> set (nodes (selectNode b c')).
         if nodeId g = b then outline_stroke g = ''rgba(255,255,255,0.9)'' \<and> draggable g
         else outline_stroke g = ''rgba(255,255,255,0.0)'' \<and> \<not> draggable g" for c'
    by (auto simp: selectNode_def Let_def)
  have d: "distinct (map nodeId (nodes (selectNode b c)))" if "distinct (map nodeId (nodes c))"
    using that by (simp only: nodeIds_selectNode)
  have most: "length (filter (\<lambda>g. nodeId g = b) (nodes (selectNode b c))) \<le> 1"
    if "distinct (map nodeId (nodes c))"
    using d [OF that] by (rule at_most_one_key)
  have one: "length (filter (\<lambda>g. nodeId g = b) (nodes (selectNode b c))) = 1"
    if "distinct (map nodeId (nodes c))" "b \<in> set (map nodeId (nodes c))"
  proof -
    have "b \<in> nodeId ` set (nodes (selectNode b c))"
      using that(2) unfolding nodeIds_selectNode [of b c, symmetric] by simp
    with d [OF that(1)] show ?thesis by (rule exactly_one_key)
  qed
  have prev: "\<forall>g \<in> set (nodes (selectNode b (selectNode a c))).
            nodeId g = a \<longrightarrow> outline_stroke g = ''rgba(255,255,255,0.0)'' \<and> \<not> draggable g"
    if "a \<noteq> b"
    using each [of "selectNode a c"] that by auto
  show ?thesis
    unfolding draggable_selectNode stroke_selectNode
    using sel nodeIds_selectNode [of b c] each [of c] most one prev by blast
qed

theorem selection_exclusive_witness:
  "distinct (map nodeId (nodes three_nodes)) \<and> ''B'' \<in> set (map nodeId (nodes three_nodes))
   \<and> ''A'' \<noteq> ''B''
   \<and> selectedNodeId (selectNode ''B'' (selectNode ''A'' three_nodes)) = Some ''B''
   \<and> length (filter draggable (nodes (selectNode ''B'' (selectNode ''A'' three_nodes)))) = 1
   \<and> map draggable (nodes (selectNode ''A'' three_nodes)) = [True, False, False]
   \<and> map draggable (nodes (selectNode ''B'' (selectNode ''A'' three_nodes))) = [False, True, False]
   \<and> map outline_stroke (nodes (selectNode ''B'' (selectNode ''A'' three_nodes)))
       = [''rgba(255,255,255,0.0)'', ''rgba(255,255,255,0.9)'', ''rgba(255,255,255,0.0)'']"
proof -
  have ids: "map nodeId (nodes (selectNode ''A'' three_nodes)) = [''A'', ''B'', ''C'']"
    by (simp add: nodeIds_selectNode three_nodes_def example_node_def)
  have ids0: "map nodeId (nodes three_nodes) = [''A'', ''B'', ''C'']"
    by (simp add: three_nodes_def example_node_def)
  have one: "selectedNodeId (selectNode ''B'' (selectNode ''A'' three_nodes)) = Some ''B''
      \<and> length (filter draggable (nodes (selectNode ''B'' (selectNode ''A'' three_nodes)))) = 1"
    using selection_exclusive [of "''B''" "selectNode ''A'' three_nodes" "''A''"]
    by (simp add: ids)
  have ev: "map draggable (nodes (selectNode ''A'' three_nodes)) = [True, False, False]"
    "map draggable (nodes (selectNode ''B'' (selectNode ''A'' three_nodes))) = [False, True, False]"
    "map outline_stroke (nodes (selectNode ''B'' (selectNode ''A'' three_nodes)))
       = [''rgba(255,255,255,0.0)'', ''rgba(255,255,255,0.9)'', ''rgba(255,255,255,0.0)'']"
    by (simp_all add: selectNode_def three_nodes_def example_node_def Let_def)
  show ?thesis
    using one ev by (simp add: ids0)
qed

section \<open>Snapshots\<close>

lemma snapshots_createInternalSnapshot:
  "snapshots (createInternalSnapshot s) = retained (snapshots s @ [new_row s])"
  by (simp add: createInternalSnapshot_def buildBackupObject_def now_def Let_def retained_def
      new_row_def orderBy_createdAt_def)

lemma others_createInternalSnapshot:
  "settings (createInternalSnapshot s) = settings s"
  "nextId (createInternalSnapshot s) = Suc (nextId s)"
  "clock (createInternalSnapshot s) = clock s"
  "reads (createInternalSnapshot s) = reads s + 2"
  "banner_hidden (createInternalSnapshot s) = banner_hidden s"
  "books_nodes (createInternalSnapshot s) = books_nodes s"
  by (simp_all add: createInternalSnapshot_def buildBackupObject_def now_def Let_def)

lemma bulkDelete_keys:
  assumes "distinct (map snap_id xs)" and "set ys = set xs" and "distinct ys"
  shows "set (bulkDelete (map snap_id (take k ys)) xs) = set (drop k ys)"
proof -
  have inj: "inj_on snap_id (set xs)" using assms(1) by (simp add: distinct_map)
  have split: "set (take k ys) \<union> set (drop k ys) = set xs"
    using assms(2) by (metis append_take_drop_id set_append)
  have disj: "set (take k ys) \<inter> set (drop k ys) = {}"
    using assms(3) by (simp add: set_take_disj_set_drop_if_distinct)
  have "\<And>r. r \<in> set xs \<Longrightarrow> (snap_id r \<in> snap_id ` set (take k ys)) = (r \<in> set (take k ys))"
    using inj split by (auto dest: inj_onD)
  then show ?thesis using split disj by (auto simp: bulkDelete_def)
qed

lemma bulkDelete_length:
  assumes "distinct (map snap_id xs)" and "set ys = set xs" and "distinct ys"
  shows "length (bulkDelete (map snap_id (take k ys)) xs) = length xs - k"
proof -
  have dx: "distinct xs" using assms(1) by (simp add: distinct_map)
  have "distinct (bulkDelete (map snap_id (take k ys)) xs)"
    using dx by (simp add: bulkDelete_def)
  then have "length (bulkDelete (map snap_id (take k ys)) xs)
        = card (set (bulkDelete (map snap_id (take k ys)) xs))"
    by (rule distinct_card [symmetric])
  also have "\<dots> = card (set (drop k ys))" using assms by (simp only: bulkDelete_keys)
  also have "\<dots> = length (drop k ys)" using assms(3) by (simp add: distinct_card)
  also have "\<dots> = length xs - k"
    using assms(2,3) dx by (metis distinct_card length_drop)
  finally show ?thesis .
qed

lemma bulkDelete_sorted:
  assumes "distinct (map snap_id xs)"
  shows "bulkDelete (map snap_id (take k xs)) xs = drop k xs"
proof -
  let ?P = "\<lambda>r. snap_id r \<notin> set (map snap_id (take k xs))"
  have d: "distinct (map snap_id (take k xs) @ map snap_id (drop k xs))"
    using assms by (metis append_take_drop_id map_append)
  have a: "filter ?P (take k xs) = []"
    by (simp add: filter_empty_conv)
  have b: "filter ?P (drop k xs) = drop k xs"
    using d by (intro filter_True) auto
  have "filter ?P (take k xs @ drop k xs) = drop k xs"
    unfolding filter_append a b by simp
  then show ?thesis by (simp add: bulkDelete_def)
qed

lemma retained_subset: "set (retained rows) \<subseteq> set rows"
  by (auto simp: retained_def bulkDelete_def)

lemma retained_distinct: "distinct (map snap_id rows) \<Longrightarrow> distinct (map snap_id (retained rows))"
  by (simp add: retained_def bulkDelete_def distinct_map_filter)

lemma retained_length:
  assumes "distinct (map snap_id rows)"
  shows "length (retained rows) = min 10 (length rows)"
proof (cases "length rows > 10")
  case True
  have "length (bulkDelete (map snap_id (take (length rows - 10) (orderBy_createdAt rows))) rows)
        = length rows - (length rows - 10)"
    unfolding orderBy_createdAt_def
    using assms by (intro bulkDelete_length) (simp_all add: distinct_map)
  with True show ?thesis by (simp add: retained_def)
next
  case False
  then show ?thesis by (simp add: retained_def)
qed

lemma retained_set:
  assumes "distinct (map snap_id rows)"
  shows "set (retained rows) = set (drop (length rows - 10) (orderBy_createdAt rows))"
proof (cases "length rows > 10")
  case True
  have "set (bulkDelete (map snap_id (take (length rows - 10) (orderBy_createdAt rows))) rows)
        = set (drop (length rows - 10) (orderBy_createdAt rows))"
    unfolding orderBy_createdAt_def
    using assms by (intro bulkDelete_keys) (simp_all add: distinct_map)
  with True show ?thesis by (simp add: retained_def)
next
  case False
  then show ?thesis by (simp add: retained_def orderBy_createdAt_def)
qed

lemma evicted_older:
  assumes "d \<in> set (take k (orderBy_createdAt rows))" and "r \<in> set (drop k (orderBy_createdAt rows))"
  shows "createdAt d \<le> createdAt r"
proof -
  have "sorted (map createdAt (take k (orderBy_createdAt rows)) @ map createdAt (drop k (orderBy_createdAt rows)))"
    unfolding map_append [symmetric] append_take_drop_id
    by (simp add: orderBy_createdAt_def)
  then show ?thesis using assms by (auto simp: sorted_append)
qed

lemma table_ok_rows:
  "table_ok s \<Longrightarrow> distinct (map snap_id (snapshots s @ [new_row s]))"
  by (auto simp: table_ok_def new_row_def)

lemma table_ok_createInternalSnapshot:
  assumes "table_ok s"
  shows "table_ok (createInternalSnapshot s)"
proof -
  have "distinct (map snap_id (snapshots (createInternalSnapshot s)))"
    unfolding snapshots_createInternalSnapshot
    using assms by (intro retained_distinct table_ok_rows)
  moreover have "\<forall>r \<in> set (snapshots (createInternalSnapshot s)). snap_id r < Suc (nextId s)"
    using assms retained_subset [of "snapshots s @ [new_row s]"]
    by (auto simp: snapshots_createInternalSnapshot table_ok_def new_row_def less_Suc_eq)
  ultimately show ?thesis by (simp add: table_ok_def others_createInternalSnapshot)
qed

lemma retained_chronological:
  assumes "distinct (map snap_id rows)" and "sorted (map createdAt rows)"
  shows "retained rows = drop (length rows - 10) rows"
proof (cases "length rows > 10")
  case True
  have "orderBy_createdAt rows = rows"
    using assms(2) by (simp add: orderBy_createdAt_def sort_key_id_if_sorted)
  then show ?thesis
    using True assms(1) by (simp add: retained_def bulkDelete_sorted)
next
  case False
  then show ?thesis by (simp add: retained_def)
qed

lemma chronological_step:
  assumes "mono (clock s)" and "chronological s" and "table_ok s"
  shows "snapshots (createInternalSnapshot s) = drop (Suc (length (snapshots s)) - 10) (snapshots s @ [new_row s])"
    and "chronological (createInternalSnapshot s)"
proof -
  let ?rows = "snapshots s @ [new_row s]"
  have le: "createdAt r \<le> createdAt (new_row s)" if mem: "r \<in> set (snapshots s)" for r
  proof -
    obtain j where "j < reads s" "createdAt r = clock s j"
      using assms(2) mem by (auto simp: chronological_def)
    then show ?thesis using assms(1) by (simp add: new_row_def monoD)
  qed
  have sorted_rows: "sorted (map createdAt ?rows)"
    using assms(2) le by (auto simp: chronological_def sorted_append)
  show eq: "snapshots (createInternalSnapshot s) = drop (Suc (length (snapshots s)) - 10) ?rows"
    using retained_chronological [OF table_ok_rows [OF assms(3)] sorted_rows]
    by (simp add: snapshots_createInternalSnapshot)
  have "sorted (map createdAt (drop (Suc (length (snapshots s)) - 10) ?rows))"
    using sorted_rows by (simp only: drop_map [symmetric] sorted_wrt_drop)
  moreover have "\<exists>j < reads s + 2. createdAt r = clock s j" if mem: "r \<in> set ?rows" for r
  proof (cases "r \<in> set (snapshots s)")
    case True
    then obtain j where "j < reads s" "createdAt r = clock s j"
      using assms(2) by (auto simp: chronological_def)
    then show ?thesis by (intro exI [of _ j]) simp
  next
    case False
    with mem have "r = new_row s" by simp
    then show ?thesis by (intro exI [of _ "Suc (reads s)"]) (simp add: new_row_def)
  qed
  ultimately show "chronological (createInternalSnapshot s)"
    unfolding chronological_def eq others_createInternalSnapshot
    by (meson in_set_dropD)
qed


lemma funpow_createInternalSnapshot_frame:
  "clock ((createInternalSnapshot ^^ n) s) = clock s
   \<and> nextId ((createInternalSnapshot ^^ n) s) = nextId s + n
   \<and> reads ((createInternalSnapshot ^^ n) s) = reads s + 2 * n"
  by (induction n) (simp_all add: others_createInternalSnapshot)

lemma funpow_createInternalSnapshot_table_ok:
  "table_ok s \<Longrightarrow> table_ok ((createInternalSnapshot ^^ n) s)"
  by (induction n) (simp_all add: table_ok_createInternalSnapshot)

lemma length_createInternalSnapshot:
  "table_ok s \<Longrightarrow> length (snapshots (createInternalSnapshot s)) = min 10 (Suc (length (snapshots s)))"
  using retained_length [OF table_ok_rows, of s] by (simp add: snapshots_createInternalSnapshot)

lemma funpow_createInternalSnapshot_length:
  assumes "snapshots s = []"
  shows "length (snapshots ((createInternalSnapshot ^^ n) s)) = min 10 n"
proof (induction n)
  case 0
  then show ?case using assms by simp
next
  case (Suc n)
  have "table_ok ((createInternalSnapshot ^^ n) s)"
    using assms by (intro funpow_createInternalSnapshot_table_ok) (simp add: table_ok_def)
  then show ?case using Suc by (simp add: length_createInternalSnapshot)
qed

lemma funpow_createInternalSnapshot_ids:
  assumes "mono (clock s)" and "snapshots s = []"
  shows "map snap_id (snapshots ((createInternalSnapshot ^^ n) s)) = [nextId s + (n - 10) ..< nextId s + n]
         \<and> chronological ((createInternalSnapshot ^^ n) s)"
proof (induction n)
  case 0
  then show ?case using assms by (simp add: chronological_def)
next
  case (Suc n)
  let ?sn = "(createInternalSnapshot ^^ n) s"
  have ok: "table_ok ?sn"
    using assms by (intro funpow_createInternalSnapshot_table_ok) (simp add: table_ok_def)
  have mono: "mono (clock ?sn)"
    using assms(1) by (simp add: funpow_createInternalSnapshot_frame)
  have len: "length (snapshots ?sn) = min 10 n"
    using assms(2) by (rule funpow_createInternalSnapshot_length)
  have step: "snapshots (createInternalSnapshot ?sn)
               = drop (Suc (length (snapshots ?sn)) - 10) (snapshots ?sn @ [new_row ?sn])"
    and chr: "chronological (createInternalSnapshot ?sn)"
    using chronological_step [OF mono _ ok] Suc by simp_all
  have "map snap_id (snapshots ?sn @ [new_row ?sn]) = [nextId s + (n - 10) ..< Suc (nextId s + n)]"
    using Suc by (simp add: new_row_def funpow_createInternalSnapshot_frame)
  then have "map snap_id (snapshots (createInternalSnapshot ?sn))
        = drop (Suc (min 10 n) - 10) [nextId s + (n - 10) ..< Suc (nextId s + n)]"
    unfolding step len drop_map [symmetric] by (rule arg_cong)
  also have "\<dots> = [nextId s + (n - 10) + (Suc (min 10 n) - 10) ..< Suc (nextId s + n)]"
    by (simp only: drop_upt)
  also have "nextId s + (n - 10) + (Suc (min 10 n) - 10) = nextId s + (Suc n - 10)"
    by arith
  finally show ?case using chr by simp
qed

text \<open>
  C4. On a snapshot table keyed by \<open>id\<close>, every \<open>createInternalSnapshot\<close> leaves at most ten
  rows. The rows it leaves are the last ten of the table, the new row included, in the
  order of \<open>createdAt\<close> (rows of equal \<open>createdAt\<close> by key), so every row it deletes is
  at most as recent as every row it keeps. After fifteen creations on an empty table
  exactly ten rows remain; under a clock that never runs backwards they are the rows
  created sixth to fifteenth.
\<close>

theorem snapshot_retention:
  assumes "table_ok s"
  shows "length (snapshots (createInternalSnapshot s)) \<le> 10
    \<and> length (snapshots (createInternalSnapshot s)) = min 10 (Suc (length (snapshots s)))
    \<and> set (snapshots (createInternalSnapshot s))
        = set (drop (Suc (length (snapshots s)) - 10) (orderBy_createdAt (snapshots s @ [new_row s])))
    \<and> (\<forall>d \<in> set (snapshots s @ [new_row s]) - set (snapshots (createInternalSnapshot s)).
         \<forall>r \<in> set (snapshots (createInternalSnapshot s)). createdAt d \<le> createdAt r)
    \<and> table_ok (createInternalSnapshot s)
    \<and> (snapshots s = [] \<longrightarrow>
         length (snapshots ((createInternalSnapshot ^^ 15) s)) = 10
         \<and> (mono (clock s) \<longrightarrow>
              map snap_id (snapshots ((createInternalSnapshot ^^ 15) s)) = [nextId s + 5 ..< nextId s + 15]))"
proof -
  let ?rows = "snapshots s @ [new_row s]"
  let ?all = "orderBy_createdAt ?rows"
  let ?k = "Suc (length (snapshots s)) - 10"
  have d: "distinct (map snap_id ?rows)" using assms by (rule table_ok_rows)
  have len: "length (snapshots (createInternalSnapshot s)) = min 10 (Suc (length (snapshots s)))"
    using assms by (rule length_createInternalSnapshot)
  have kept: "set (snapshots (createInternalSnapshot s)) = set (drop ?k ?all)"
    using retained_set [OF d] by (simp add: snapshots_createInternalSnapshot)
  have "set ?rows = set (take ?k ?all) \<union> set (drop ?k ?all)"
    by (metis append_take_drop_id set_append set_sort orderBy_createdAt_def)
  then have older: "\<forall>d \<in> set ?rows - set (snapshots (createInternalSnapshot s)).
         \<forall>r \<in> set (snapshots (createInternalSnapshot s)). createdAt d \<le> createdAt r"
    unfolding kept using evicted_older [of _ ?k ?rows] by blast
  have fifteen: "length (snapshots ((createInternalSnapshot ^^ 15) s)) = 10" if "snapshots s = []"
    using funpow_createInternalSnapshot_length [OF that, of 15] by simp
  have ids: "map snap_id (snapshots ((createInternalSnapshot ^^ 15) s)) = [nextId s + 5 ..< nextId s + 15]"
    if "snapshots s = []" "mono (clock s)"
    using funpow_createInternalSnapshot_ids [OF that(2,1), of 15] by simp
  show ?thesis
    using len kept older fifteen ids table_ok_createInternalSnapshot [OF assms] by simp
qed

lemma full_store_eviction:
  "map snap_id (snapshots (createInternalSnapshot full_store)) = [1, 3, 4, 5, 6, 7, 8, 9, 10, 11]"
  by (simp add: snapshots_createInternalSnapshot retained_def full_store_def fresh_store_def
      new_row_def row_def orderBy_createdAt_def bulkDelete_def)

theorem snapshot_retention_witness:
  "table_ok full_store
   \<and> row 2 100 \<in> set (snapshots full_store)
   \<and> row 2 100 \<notin> set (snapshots (createInternalSnapshot full_store))
   \<and> length (snapshots (createInternalSnapshot full_store)) = 10
   \<and> list_all (\<lambda>r. 100 \<le> createdAt r) (snapshots (createInternalSnapshot full_store))
   \<and> snapshots fresh_store = [] \<and> mono (clock fresh_store)
   \<and> length (snapshots ((createInternalSnapshot ^^ 15) fresh_store)) = 10
   \<and> map snap_id (snapshots ((createInternalSnapshot ^^ 15) fresh_store)) = [6 ..< 16]"
proof -
  have ok: "table_ok full_store"
    by (simp add: table_ok_def full_store_def fresh_store_def row_def)
  have mem: "row 2 100 \<in> set (snapshots full_store)"
    by (simp add: full_store_def fresh_store_def)
  have "snap_id (row 2 100) \<notin> set (map snap_id (snapshots (createInternalSnapshot full_store)))"
    unfolding full_store_eviction by (simp add: row_def)
  then have gone: "row 2 100 \<notin> set (snapshots (createInternalSnapshot full_store))"
    by force
  have empty: "snapshots fresh_store = []" and ok': "table_ok fresh_store"
    by (simp_all add: fresh_store_def table_ok_def)
  have mono: "mono (clock fresh_store)"
    by (simp add: fresh_store_def mono_def)
  have nid: "nextId fresh_store = 1" by (simp add: fresh_store_def)
  have at: "createdAt (row 2 100) = 100" by (simp add: row_def)
  have len0: "length (snapshots full_store) = 10"
    by (simp add: full_store_def fresh_store_def)
  have len: "length (snapshots (createInternalSnapshot full_store)) = 10"
    using snapshot_retention [OF ok] len0 by simp
  have evicted: "row 2 100 \<in> set (snapshots full_store @ [new_row full_store])
              - set (snapshots (createInternalSnapshot full_store))"
    using mem gone by simp
  have "\<forall>d \<in> set (snapshots full_store @ [new_row full_store])
              - set (snapshots (createInternalSnapshot full_store)).
          \<forall>r \<in> set (snapshots (createInternalSnapshot full_store)). createdAt d \<le> createdAt r"
    using snapshot_retention [OF ok] by blast
  from this evicted
  have "\<forall>r \<in> set (snapshots (createInternalSnapshot full_store)). createdAt (row 2 100) \<le> createdAt r"
    by (rule bspec)
  then have older: "list_all (\<lambda>r. 100 \<le> createdAt r) (snapshots (createInternalSnapshot full_store))"
    unfolding at list_all_iff .
  have fifteen: "length (snapshots ((createInternalSnapshot ^^ 15) fresh_store)) = 10
      \<and> map snap_id (snapshots ((createInternalSnapshot ^^ 15) fresh_store)) = [6 ..< 16]"
    using snapshot_retention [OF ok'] empty mono nid by simp
  show ?thesis
    using ok mem gone len older empty mono fifteen by blast
qed

section \<open>The backup nudge\<close>

lemma frame_maybeShowBackupNudge:
  "settings (maybeShowBackupNudge s) = settings s"
  "snapshots (maybeShowBackupNudge s) = snapshots s"
  "nextId (maybeShowBackupNudge s) = nextId s"
  "clock (maybeShowBackupNudge s) = clock s"
  "reads (maybeShowBackupNudge s) = reads s + 2"
  by (simp_all add: maybeShowBackupNudge_def now_def Let_def)

lemma getSetting_maybeShowBackupNudge:
  "getSetting (maybeShowBackupNudge s) k d = getSetting s k d"
  by (simp add: getSetting_def frame_maybeShowBackupNudge)

lemma banner_maybeShowBackupNudge:
  "banner_hidden (maybeShowBackupNudge s) \<longleftrightarrow>
     \<not> (getSetting s ''lastChangedAt'' 0 > getSetting s ''lastExternalBackupAt'' 0
        \<and> clock s (reads s) - getSetting s ''lastExternalBackupAt'' 0 \<ge> dayMs
        \<and> \<not> clock s (Suc (reads s)) - getSetting s ''lastNudgeDismissAt'' 0 < dayMs)"
  by (simp add: maybeShowBackupNudge_def now_def Let_def)

text \<open>
  C2. After \<open>maybeShowBackupNudge\<close> the banner is shown exactly when the last change is
  strictly later than the last external backup, the clock (first reading) is at least
  24 hours past the last external backup, and the clock (second reading) is not less
  than 24 hours past the last dismissal; rows that are absent read as 0. So a dismissal
  less than 24 hours old hides the banner whatever the other two say, and a second
  evaluation that reads the same times decides the same.
\<close>

theorem backup_nudge_iff:
  "(\<not> banner_hidden (maybeShowBackupNudge s) \<longleftrightarrow>
      getSetting s ''lastChangedAt'' 0 > getSetting s ''lastExternalBackupAt'' 0
      \<and> clock s (reads s) - getSetting s ''lastExternalBackupAt'' 0 \<ge> dayMs
      \<and> \<not> clock s (Suc (reads s)) - getSetting s ''lastNudgeDismissAt'' 0 < dayMs)
   \<and> (clock s (Suc (reads s)) - getSetting s ''lastNudgeDismissAt'' 0 < dayMs
        \<longrightarrow> banner_hidden (maybeShowBackupNudge s))
   \<and> (clock s (reads s + 2) = clock s (reads s) \<and> clock s (reads s + 3) = clock s (Suc (reads s))
        \<longrightarrow> banner_hidden (maybeShowBackupNudge (maybeShowBackupNudge s))
            = banner_hidden (maybeShowBackupNudge s))"
  by (auto simp add: banner_maybeShowBackupNudge getSetting_maybeShowBackupNudge
       frame_maybeShowBackupNudge numeral_3_eq_3)

theorem backup_nudge_iff_witness:
  "\<not> banner_hidden (maybeShowBackupNudge (scenario (1700000000000 - 48 * 3600000)))
   \<and> banner_hidden (maybeShowBackupNudge (scenario (1700000000000 - 1 * 3600000)))
   \<and> clock (scenario 0) (Suc (reads (scenario 0)))
        - getSetting (scenario (1700000000000 - 1 * 3600000)) ''lastNudgeDismissAt'' 0 < dayMs
   \<and> banner_hidden (maybeShowBackupNudge (maybeShowBackupNudge (scenario (1700000000000 - 48 * 3600000))))
       = banner_hidden (maybeShowBackupNudge (scenario (1700000000000 - 48 * 3600000)))"
proof -
  have g: "getSetting (scenario d) ''lastChangedAt'' 0 = 1700000000000"
    "getSetting (scenario d) ''lastExternalBackupAt'' 0 = 1700000000000 - 25 * 3600000"
    "getSetting (scenario d) ''lastNudgeDismissAt'' 0 = d"
    "clock (scenario d) k = 1700000000000" for d k
    by (simp_all add: scenario_def getSetting_def fresh_store_def)
  show ?thesis
    using backup_nudge_iff [of "scenario (1700000000000 - 48 * 3600000)"]
      backup_nudge_iff [of "scenario (1700000000000 - 1 * 3600000)"]
    by (simp add: g dayMs_def)
qed

section \<open>Change tracking\<close>

lemma smod_25_iff: "(c::int) smod 25 = 0 \<longleftrightarrow> 25 dvd c"
proof -
  have "c smod 25 = 0 \<longleftrightarrow> c = 0 \<or> \<bar>c\<bar> mod 25 = 0"
    by (simp add: signed_modulo_int_def sgn_0_0)
  also have "\<dots> \<longleftrightarrow> c = 0 \<or> 25 dvd \<bar>c\<bar>"
    by (simp only: dvd_eq_mod_eq_0)
  also have "\<dots> \<longleftrightarrow> 25 dvd c"
    by auto
  finally show ?thesis .
qed


lemma frame_setSetting:
  "snapshots (setSetting k v s) = snapshots s"
  "nextId (setSetting k v s) = nextId s"
  "clock (setSetting k v s) = clock s"
  "reads (setSetting k v s) = reads s"
  "table_ok (setSetting k v s) = table_ok s"
  by (simp_all add: setSetting_def table_ok_def)

lemma markChanged_counted:
  "markChanged s = maybeShowBackupNudge
     (if 25 dvd (getSetting s ''changeCount'' 0 + 1) then createInternalSnapshot (counted s)
      else counted s)"
  by (simp add: markChanged_def now_def Let_def counted_def smod_25_iff getSetting_def setSetting_def)

lemma frame_counted:
  "snapshots (counted s) = snapshots s"
  "nextId (counted s) = nextId s"
  "clock (counted s) = clock s"
  "table_ok (counted s) = table_ok s"
  "settings (counted s) ''lastChangedAt'' = Some (clock s (reads s))"
  "settings (counted s) ''changeCount'' = Some (getSetting s ''changeCount'' 0 + 1)"
  by (simp_all add: counted_def setSetting_def table_ok_def)

lemma settings_markChanged:
  "settings (markChanged s) = settings (counted s)"
  by (simp add: markChanged_counted frame_maybeShowBackupNudge others_createInternalSnapshot)

lemma count_markChanged:
  "getSetting (markChanged s) ''changeCount'' 0 = getSetting s ''changeCount'' 0 + 1"
  by (simp add: getSetting_def settings_markChanged frame_counted)

lemma nextId_markChanged:
  "nextId (markChanged s) =
     (if 25 dvd (getSetting s ''changeCount'' 0 + 1) then Suc (nextId s) else nextId s)"
  by (simp add: markChanged_counted frame_maybeShowBackupNudge others_createInternalSnapshot
      frame_counted)

lemma snapshots_markChanged:
  "snapshots (markChanged s) =
     (if 25 dvd (getSetting s ''changeCount'' 0 + 1) then snapshots (createInternalSnapshot (counted s))
      else snapshots s)"
  by (simp add: markChanged_counted frame_maybeShowBackupNudge frame_counted)

lemma table_ok_maybeShowBackupNudge: "table_ok (maybeShowBackupNudge s) = table_ok s"
  by (simp add: table_ok_def frame_maybeShowBackupNudge)

lemma table_ok_markChanged: "table_ok s \<Longrightarrow> table_ok (markChanged s)"
  by (simp add: markChanged_counted table_ok_maybeShowBackupNudge table_ok_createInternalSnapshot
      frame_counted)

lemma length_markChanged:
  assumes "table_ok s"
  shows "length (snapshots (markChanged s)) =
     (if 25 dvd (getSetting s ''changeCount'' 0 + 1) then min 10 (Suc (length (snapshots s)))
      else length (snapshots s))"
  using assms by (simp add: snapshots_markChanged length_createInternalSnapshot frame_counted)

lemma funpow_markChanged:
  assumes "getSetting s ''changeCount'' 0 = 0" and "snapshots s = []"
  shows "getSetting ((markChanged ^^ n) s) ''changeCount'' 0 = int n
       \<and> nextId ((markChanged ^^ n) s) = nextId s + n div 25
       \<and> length (snapshots ((markChanged ^^ n) s)) = min 10 (n div 25)
       \<and> table_ok ((markChanged ^^ n) s)"
proof (induction n)
  case 0
  then show ?case using assms by (simp add: table_ok_def)
next
  case (Suc n)
  have dv: "(25 dvd int n + 1) = (25 dvd Suc n)"
    by presburger
  have d: "Suc n div 25 = (if 25 dvd Suc n then Suc (n div 25) else n div 25)"
    by (simp add: div_Suc dvd_eq_mod_eq_0)
  show ?case
    using Suc by (auto simp add: count_markChanged nextId_markChanged length_markChanged
        table_ok_markChanged dv d min_def)
qed


text \<open>
  C3. A call of \<open>markChanged\<close> stores the clock reading it takes first as
  \<open>lastChangedAt\<close> and adds one to \<open>changeCount\<close> (read as 0 when its row is absent);
  it adds a row to the snapshot table exactly when the new count is a multiple of 25,
  and leaves the table as it was otherwise. On a store whose count reads 0 and whose
  snapshot table is empty, \<open>n\<close> calls leave the count at \<open>n\<close>, have added \<open>n div 25\<close>
  rows and leave \<open>min 10 (n div 25)\<close> of them: 1, 2 and 3 after 25, 50 and 75 calls.
\<close>

theorem markChanged_cadence:
  "settings (markChanged s) ''lastChangedAt'' = Some (clock s (reads s))
   \<and> getSetting (markChanged s) ''changeCount'' 0 = getSetting s ''changeCount'' 0 + 1
   \<and> (nextId (markChanged s) = Suc (nextId s) \<longleftrightarrow> 25 dvd getSetting (markChanged s) ''changeCount'' 0)
   \<and> (\<not> 25 dvd getSetting (markChanged s) ''changeCount'' 0 \<longrightarrow>
        snapshots (markChanged s) = snapshots s \<and> nextId (markChanged s) = nextId s)
   \<and> (25 dvd getSetting (markChanged s) ''changeCount'' 0 \<and> table_ok s \<longrightarrow>
        length (snapshots (markChanged s)) = min 10 (Suc (length (snapshots s))))
   \<and> (getSetting s ''changeCount'' 0 = 0 \<and> snapshots s = [] \<longrightarrow>
        (\<forall>n. getSetting ((markChanged ^^ n) s) ''changeCount'' 0 = int n
           \<and> nextId ((markChanged ^^ n) s) = nextId s + n div 25
           \<and> length (snapshots ((markChanged ^^ n) s)) = min 10 (n div 25))
        \<and> length (snapshots ((markChanged ^^ 25) s)) = 1
        \<and> length (snapshots ((markChanged ^^ 50) s)) = 2
        \<and> length (snapshots ((markChanged ^^ 75) s)) = 3)"
proof -
  have a: "settings (markChanged s) ''lastChangedAt'' = Some (clock s (reads s))"
    by (simp add: settings_markChanged frame_counted)
  have b: "nextId (markChanged s) = Suc (nextId s) \<longleftrightarrow> 25 dvd getSetting (markChanged s) ''changeCount'' 0"
    by (simp add: count_markChanged nextId_markChanged)
  have c: "snapshots (markChanged s) = snapshots s \<and> nextId (markChanged s) = nextId s"
    if "\<not> 25 dvd getSetting (markChanged s) ''changeCount'' 0"
    using that by (simp add: count_markChanged nextId_markChanged snapshots_markChanged)
  have d: "length (snapshots (markChanged s)) = min 10 (Suc (length (snapshots s)))"
    if "25 dvd getSetting (markChanged s) ''changeCount'' 0" "table_ok s"
    using that by (simp add: count_markChanged length_markChanged)
  have e: "getSetting ((markChanged ^^ n) s) ''changeCount'' 0 = int n
           \<and> nextId ((markChanged ^^ n) s) = nextId s + n div 25
           \<and> length (snapshots ((markChanged ^^ n) s)) = min 10 (n div 25)"
    if "getSetting s ''changeCount'' 0 = 0" "snapshots s = []" for n
    using funpow_markChanged [OF that, of n] by blast
  have f: "length (snapshots ((markChanged ^^ 25) s)) = 1
        \<and> length (snapshots ((markChanged ^^ 50) s)) = 2
        \<and> length (snapshots ((markChanged ^^ 75) s)) = 3"
    if "getSetting s ''changeCount'' 0 = 0" "snapshots s = []"
    using e [OF that, of 25] e [OF that, of 50] e [OF that, of 75] by simp
  show ?thesis
    using a b c d e f count_markChanged [of s] by blast
qed

theorem markChanged_cadence_witness:
  "getSetting fresh_store ''changeCount'' 0 = 0 \<and> snapshots fresh_store = []
   \<and> settings (markChanged fresh_store) ''lastChangedAt'' = Some 1700000000000
   \<and> getSetting ((markChanged ^^ 24) fresh_store) ''changeCount'' 0 = 24
   \<and> \<not> 25 dvd getSetting ((markChanged ^^ 24) fresh_store) ''changeCount'' 0
   \<and> length (snapshots ((markChanged ^^ 24) fresh_store)) = 0
   \<and> 25 dvd getSetting ((markChanged ^^ 25) fresh_store) ''changeCount'' 0
   \<and> length (snapshots ((markChanged ^^ 25) fresh_store)) = 1
   \<and> length (snapshots ((markChanged ^^ 50) fresh_store)) = 2
   \<and> length (snapshots ((markChanged ^^ 75) fresh_store)) = 3
   \<and> nextId ((markChanged ^^ 75) fresh_store) = 4
   \<and> table_ok due_store
   \<and> 25 dvd getSetting (markChanged due_store) ''changeCount'' 0
   \<and> length (snapshots (markChanged due_store)) = 10"
proof -
  have h: "getSetting fresh_store ''changeCount'' 0 = 0 \<and> snapshots fresh_store = []"
    by (simp add: fresh_store_def getSetting_def)
  have r: "clock fresh_store (reads fresh_store) = 1700000000000" "nextId fresh_store = 1"
    by (simp_all add: fresh_store_def)
  note T = markChanged_cadence [of fresh_store]
  have a: "settings (markChanged fresh_store) ''lastChangedAt'' = Some 1700000000000"
    using T r by simp
  have n: "getSetting ((markChanged ^^ n) fresh_store) ''changeCount'' 0 = int n
           \<and> nextId ((markChanged ^^ n) fresh_store) = 1 + n div 25
           \<and> length (snapshots ((markChanged ^^ n) fresh_store)) = min 10 (n div 25)" for n
    using T h r by simp
  have ok: "table_ok due_store" and c: "getSetting due_store ''changeCount'' 0 = 24"
    and l: "length (snapshots due_store) = 10"
    by (simp_all add: due_store_def full_store_def fresh_store_def table_ok_def row_def
        getSetting_def)
  have d: "25 dvd getSetting (markChanged due_store) ''changeCount'' 0
      \<and> length (snapshots (markChanged due_store)) = 10"
    using markChanged_cadence [of due_store] ok c l by simp
  show ?thesis
    using h a n [of 24] n [of 25] n [of 50] n [of 75] ok d by simp
qed


section \<open>A store never backed up\<close>

text \<open>
  C10. On a store with no \<open>lastChangedAt\<close>, no \<open>lastExternalBackupAt\<close> and no
  \<open>lastNudgeDismissAt\<close> row, an evaluation of the nudge hides the banner; when the
  clock reads at least 24 hours past the epoch, the first \<open>markChanged\<close> shows it.
\<close>

theorem never_backed_up_nudge:
  assumes "settings s ''lastChangedAt'' = None"
    and "settings s ''lastExternalBackupAt'' = None"
    and "settings s ''lastNudgeDismissAt'' = None"
  shows "banner_hidden (maybeShowBackupNudge s)
    \<and> ((\<forall>k. dayMs \<le> clock s k) \<longrightarrow> \<not> banner_hidden (markChanged s))"
proof -
  have hidden: "banner_hidden (maybeShowBackupNudge s)"
    using assms by (simp add: banner_maybeShowBackupNudge getSetting_def)
  have shown: "\<not> banner_hidden (markChanged s)" if day: "\<forall>k. dayMs \<le> clock s k"
  proof -
    define s4 where "s4 = (if 25 dvd (getSetting s ''changeCount'' 0 + 1)
                           then createInternalSnapshot (counted s) else counted s)"
    have set4: "settings s4 = settings (counted s)" and clk: "clock s4 = clock s"
      by (simp_all add: s4_def others_createInternalSnapshot frame_counted)
    have "settings (counted s) ''lastExternalBackupAt'' = None"
      "settings (counted s) ''lastNudgeDismissAt'' = None"
      using assms by (simp_all add: counted_def setSetting_def)
    then have g: "getSetting s4 ''lastExternalBackupAt'' 0 = 0"
      "getSetting s4 ''lastNudgeDismissAt'' 0 = 0"
      "getSetting s4 ''lastChangedAt'' 0 = clock s (reads s)"
      by (simp_all add: getSetting_def set4 frame_counted)
    have pos: "0 < clock s (reads s)"
      using day [rule_format, of "reads s"] by (simp add: dayMs_def)
    have "\<not> banner_hidden (maybeShowBackupNudge s4)"
      using day pos by (simp add: banner_maybeShowBackupNudge g clk not_less)
    then show ?thesis by (simp add: markChanged_counted s4_def)
  qed
  show ?thesis using hidden shown by blast
qed

theorem never_backed_up_nudge_witness:
  "settings fresh_store = Map.empty \<and> (\<forall>k. dayMs \<le> clock fresh_store k)
   \<and> banner_hidden (maybeShowBackupNudge fresh_store)
   \<and> \<not> banner_hidden (markChanged fresh_store)"
proof -
  have e: "settings fresh_store = Map.empty" by (simp add: fresh_store_def)
  have d: "\<forall>k. dayMs \<le> clock fresh_store k" by (simp add: fresh_store_def dayMs_def)
  show ?thesis
    using never_backed_up_nudge [of fresh_store] e d by simp
qed

end
